theory Spec2Isabelle
  imports Main
begin

section \<open>Values shared by the modelled modules\<close>

text \<open>
  A thrown value of the source is a value of \<open>js_error\<close>: \<^verbatim>\<open>throw Error(msg)\<close> is
  \<open>Error msg\<close>, a property read on \<^verbatim>\<open>null\<close> or \<^verbatim>\<open>undefined\<close> is \<open>TypeError\<close>.
  \<open>ConfigurationError\<close> is the error of the spec's taxonomy (7) for a malformed base
  URL.
\<close>

datatype js_error = Error string | TypeError | ConfigurationError

text \<open>The single quote of a template string such as \<^verbatim>\<open>`getByName('${groupName}')`\<close>.\<close>

definition quote :: string where
  "quote = [CHR 0x27]"

section \<open>Canvas ordering helper reindex (packages/sp/src/clientsidepages.ts)\<close>

text \<open>
  \<^verbatim>\<open>reindex\<close> works on arrays of objects of the structural type
  \<^verbatim>\<open>{ order: number, columns?: ...[], controls?: ...[] }\<close> and assigns
  \<^verbatim>\<open>collection[i].order\<close> in place. For a section \<^verbatim>\<open>order\<close> is a field of the object;
  for a column and for a control it is an accessor pair that reads and writes a field of
  the object's \<^verbatim>\<open>json\<close> (\<^verbatim>\<open>data.position.sectionIndex\<close>,
  \<^verbatim>\<open>data.position.controlIndex\<close>), and \<^verbatim>\<open>json\<close> defaults to the one static object
  \<^verbatim>\<open>CanvasColumn.Default\<close> (\<^verbatim>\<open>ClientSideText.Default\<close>, \<^verbatim>\<open>ClientSideWebpart.Default\<close>),
  so several objects can read and write the same number. The numbers therefore live in a
  store, addressed by cell, and an object carries the cell its \<^verbatim>\<open>order\<close> stands for.
  An optional property is an \<open>option\<close>: \<open>None\<close> when the object has no own property of
  that name (\<^verbatim>\<open>hOP\<close> is false), \<open>Some xs\<close> when it has one. The arrays themselves are
  not changed by \<^verbatim>\<open>reindex\<close>. \<^verbatim>\<open>reindex\<close> never reads an order; what it writes is
  \<^verbatim>\<open>i + 1\<close> for an array index \<open>i\<close>, a whole number that a double holds exactly, so
  a cell holds an \<open>int\<close>.
\<close>

datatype orderable =
  Orderable (order_cell: nat) (columns: "orderable list option") (controls: "orderable list option")

type_synonym order_store = "nat \<Rightarrow> int"

text \<open>The read \<^verbatim>\<open>x.order\<close>.\<close>

definition order_of :: "order_store \<Rightarrow> orderable \<Rightarrow> int" where
  "order_of h x = h (order_cell x)"

text \<open>
  The loop \<^verbatim>\<open>for (let i = 0; i < collection.length; i++)\<close> is \<open>reindex_loop\<close>, started at
  index 0; its body is \<open>reindex_item\<close>: \<^verbatim>\<open>collection[i].order = i + 1\<close> writes the cell
  of the object, then the columns are reindexed when the object has a \<^verbatim>\<open>columns\<close>
  property, \<^emph>\<open>else\<close> the controls when it has a \<^verbatim>\<open>controls\<close> property. The store is
  passed from each step to the next.
\<close>

fun reindex_item :: "nat \<Rightarrow> orderable \<Rightarrow> order_store \<Rightarrow> order_store"
  and reindex_loop :: "nat \<Rightarrow> orderable list \<Rightarrow> order_store \<Rightarrow> order_store" where
  "reindex_item i (Orderable c (Some cols) ctls) h =
     reindex_loop 0 cols (h(c := int i + 1))"
| "reindex_item i (Orderable c None (Some ctls)) h =
     reindex_loop 0 ctls (h(c := int i + 1))"
| "reindex_item i (Orderable c None None) h = h(c := int i + 1)"
| "reindex_loop i [] h = h"
| "reindex_loop i (x # xs) h = reindex_loop (Suc i) xs (reindex_item i x h)"

definition reindex :: "orderable list \<Rightarrow> order_store \<Rightarrow> order_store" where
  "reindex collection h = reindex_loop 0 collection h"

text \<open>
  The property of the docstring ("1 based and stepped (1, 2, 3...)"), as a check that runs
  on a store: from index \<open>i\<close> on, every element reads the order of its index plus one,
  and so do, recursively, the elements of the array that \<^verbatim>\<open>reindex\<close> visits in it.
\<close>

fun stepped_item :: "order_store \<Rightarrow> nat \<Rightarrow> orderable \<Rightarrow> bool"
  and stepped_from :: "order_store \<Rightarrow> nat \<Rightarrow> orderable list \<Rightarrow> bool" where
  "stepped_item h i (Orderable c (Some cols) ctls) = (h c = int i + 1 \<and> stepped_from h 0 cols)"
| "stepped_item h i (Orderable c None (Some ctls)) = (h c = int i + 1 \<and> stepped_from h 0 ctls)"
| "stepped_item h i (Orderable c None None) = (h c = int i + 1)"
| "stepped_from h i [] = True"
| "stepped_from h i (x # xs) = (stepped_item h i x \<and> stepped_from h (Suc i) xs)"

text \<open>The cells that \<^verbatim>\<open>reindex\<close> writes, in the order of the writes.\<close>

fun cells_item :: "orderable \<Rightarrow> nat list"
  and cells_list :: "orderable list \<Rightarrow> nat list" where
  "cells_item (Orderable c (Some cols) ctls) = c # cells_list cols"
| "cells_item (Orderable c None (Some ctls)) = c # cells_list ctls"
| "cells_item (Orderable c None None) = [c]"
| "cells_list [] = []"
| "cells_list (x # xs) = cells_item x @ cells_list xs"

section \<open>File operations (packages/sp/src/files/types.ts)\<close>

text \<open>
  \<^verbatim>\<open>export enum CheckinType { Minor = 0, Major = 1, Overwrite = 2 }\<close>; inside a
  template string the member prints as its number.
\<close>

datatype CheckinType = Minor | Major | Overwrite

fun CheckinType_text :: "CheckinType \<Rightarrow> string" where
  "CheckinType_text Minor = ''0''"
| "CheckinType_text Major = ''1''"
| "CheckinType_text Overwrite = ''2''"

text \<open>
  The only request a file operation makes is \<^verbatim>\<open>spPost(this.clone(File, path))\<close>. The
  functions \<^verbatim>\<open>clone\<close>, \<^verbatim>\<open>spPost\<close> and \<^verbatim>\<open>escapeQueryStrValue\<close> live outside these
  sources, so the operations take \<open>cloneFile\<close> (for \<^verbatim>\<open>this.clone(File, path)\<close>:
  the path segment to the child node of the file at hand) and \<open>esc\<close> as parameters, and
  a call of \<^verbatim>\<open>spPost\<close> on a node is the value \<open>SpPost node\<close>. An operation returns \<open>Inl e\<close> when it throws \<open>e\<close> before
  returning, and \<open>Inr calls\<close> with the requests it has issued, in order, when it returns
  its promise. A \<open>string\<close> stands for a JavaScript string, one \<open>char\<close> for each code
  unit, so that \<open>length\<close> is \<^verbatim>\<open>.length\<close>.
\<close>

datatype 'n sp_call = SpPost 'n

definition max_comment :: string where
  "max_comment = ''The maximum comment length is 1023 characters.''"

text \<open>
  \<^verbatim>\<open>if (comment.length > 1023) { throw Error("The maximum comment length is 1023 characters."); }
  return spPost(this.clone(File, `checkin(comment='${escapeQueryStrValue(comment)}',checkintype=${checkinType})`));\<close>
\<close>

definition checkin ::
  "(string \<Rightarrow> 'n) \<Rightarrow> (string \<Rightarrow> string) \<Rightarrow> string \<Rightarrow> CheckinType \<Rightarrow> js_error + 'n sp_call list" where
  "checkin cloneFile esc comment checkinType =
     (if length comment > 1023 then Inl (Error max_comment)
      else Inr [SpPost (cloneFile (''checkin(comment='' @ quote @ esc comment @ quote
                  @ '',checkintype='' @ CheckinType_text checkinType @ '')''))])"

definition deny :: "(string \<Rightarrow> 'n) \<Rightarrow> (string \<Rightarrow> string) \<Rightarrow> string \<Rightarrow> js_error + 'n sp_call list" where
  "deny cloneFile esc comment =
     (if length comment > 1023 then Inl (Error max_comment)
      else Inr [SpPost (cloneFile (''deny(comment='' @ quote @ esc comment @ quote @ '')''))])"

definition publish :: "(string \<Rightarrow> 'n) \<Rightarrow> (string \<Rightarrow> string) \<Rightarrow> string \<Rightarrow> js_error + 'n sp_call list" where
  "publish cloneFile esc comment =
     (if length comment > 1023 then Inl (Error max_comment)
      else Inr [SpPost (cloneFile (''publish(comment='' @ quote @ esc comment @ quote @ '')''))])"

definition unpublish :: "(string \<Rightarrow> 'n) \<Rightarrow> (string \<Rightarrow> string) \<Rightarrow> string \<Rightarrow> js_error + 'n sp_call list" where
  "unpublish cloneFile esc comment =
     (if length comment > 1023 then Inl (Error max_comment)
      else Inr [SpPost (cloneFile (''unpublish(comment='' @ quote @ esc comment @ quote @ '')''))])"

subsection \<open>Chunked upload\<close>

text \<open>
  A \<^verbatim>\<open>Blob\<close> is the list of its bytes; \<^verbatim>\<open>file.size\<close> is its length.
  \<^verbatim>\<open>file.slice(start, end)\<close> keeps the bytes from \<open>start\<close> up to \<open>end\<close>, both clamped
  to the size, and \<^verbatim>\<open>file.slice(start)\<close> runs to the end.
\<close>

definition slice :: "'a list \<Rightarrow> nat \<Rightarrow> nat \<Rightarrow> 'a list" where
  "slice file start end = take (end - start) (drop start file)"

definition slice_from :: "'a list \<Rightarrow> nat \<Rightarrow> 'a list" where
  "slice_from file start = drop start file"

text \<open>
  What \<^verbatim>\<open>setContentChunked\<close> does, in order: the reports to the \<^verbatim>\<open>progress\<close> callback
  (stage, block number, current pointer, total blocks) and the three kinds of upload
  request with their file offset and fragment. The upload id is one GUID, the same in
  every call and every report, as are the chunk size and the file size of a report; they
  are left out.
\<close>

datatype 'a upload_event =
    Progress string nat nat nat
  | StartUpload "'a list"
  | ContinueUpload nat "'a list"
  | FinishUpload nat "'a list"

fun fragment :: "'a upload_event \<Rightarrow> 'a list" where
  "fragment (Progress stage blockNumber pointer totalBlocks) = []"
| "fragment (StartUpload frag) = frag"
| "fragment (ContinueUpload fileOffset frag) = frag"
| "fragment (FinishUpload fileOffset frag) = frag"

text \<open>
  \<^verbatim>\<open>startUpload\<close> and \<^verbatim>\<open>continueUpload\<close> resolve to the number the server answers;
  the server is the parameter \<open>server\<close>, from the events so far (the request included)
  to its answer. The server of the service's documentation answers the running total of
  uploaded bytes.
\<close>

definition running_total :: "'a upload_event list \<Rightarrow> nat" where
  "running_total events = sum_list (map (\<lambda>e. length (fragment e)) events)"

text \<open>
  \<^verbatim>\<open>parseInt((file.size / chunkSize).toString(), 10) + ((file.size % chunkSize === 0) ? 1 : 0)\<close>.
  The quotient is a double, printed and parsed again: the parameter \<open>parsedQuotient\<close>
  stands for \<^verbatim>\<open>parseInt((file.size / chunkSize).toString(), 10)\<close>, from the file size and
  the chunk size. The remainder of two whole numbers is exact.
\<close>

definition blockCount :: "(nat \<Rightarrow> nat \<Rightarrow> nat) \<Rightarrow> nat \<Rightarrow> nat \<Rightarrow> nat" where
  "blockCount parsedQuotient fileSize chunkSize =
     parsedQuotient fileSize chunkSize + (if fileSize mod chunkSize = 0 then 1 else 0)"

text \<open>
  A quotient from \<^verbatim>\<open>1e-6\<close> up to \<^verbatim>\<open>1e21\<close> prints in positional notation, and the parse
  gives its whole part. (A smaller or larger one prints with an exponent, and the parse
  gives the digits before the point: 9 for one byte at the default chunk size.)
\<close>

definition whole_quotient :: "nat \<Rightarrow> nat \<Rightarrow> nat" where
  "whole_quotient fileSize chunkSize = fileSize div chunkSize"

text \<open>
  \<^verbatim>\<open>for (let i = 2; i < blockCount; i++) { chain = chain.then(pointer => { progress(...);
  return this.continueUpload(uploadId, pointer, file.slice(pointer, pointer + chunkSize)); }); }\<close>
  The chain runs its links in order, each on the pointer the link before resolved to.
\<close>

function continue_chain ::
  "('a upload_event list \<Rightarrow> nat) \<Rightarrow> 'a list \<Rightarrow> nat \<Rightarrow> nat \<Rightarrow> nat
     \<Rightarrow> 'a upload_event list \<times> nat \<Rightarrow> 'a upload_event list \<times> nat" where
  "continue_chain server file chunkSize blocks i (events, pointer) =
     (if i < blocks then
        (let events' = events
               @ [Progress ''continue'' i pointer blocks,
                  ContinueUpload pointer (slice file pointer (pointer + chunkSize))]
         in continue_chain server file chunkSize blocks (Suc i) (events', server events'))
      else (events, pointer))"
  by pat_completeness auto
termination
  by (relation "measure (\<lambda>(server, file, chunkSize, blocks, i, st). blocks - i)") auto

declare continue_chain.simps [simp del]

text \<open>
  The body of \<^verbatim>\<open>setContentChunked\<close> for a given number of blocks: the first fragment
  with \<^verbatim>\<open>startUpload\<close>, the chain of \<^verbatim>\<open>continueUpload\<close> links, and \<^verbatim>\<open>finishUpload\<close>
  with the rest of the file.
\<close>

definition upload_blocks ::
  "('a upload_event list \<Rightarrow> nat) \<Rightarrow> 'a list \<Rightarrow> nat \<Rightarrow> nat \<Rightarrow> 'a upload_event list" where
  "upload_blocks server file chunkSize blocks =
     (let started = [Progress ''starting'' 1 0 blocks, StartUpload (slice file 0 chunkSize)];
          (events, pointer) =
            continue_chain server file chunkSize blocks 2 (started, server started)
      in events @ [Progress ''finishing'' blocks pointer blocks,
                   FinishUpload pointer (slice_from file pointer)])"

definition setContentChunked ::
  "(nat \<Rightarrow> nat \<Rightarrow> nat) \<Rightarrow> ('a upload_event list \<Rightarrow> nat) \<Rightarrow> 'a list \<Rightarrow> nat
     \<Rightarrow> 'a upload_event list" where
  "setContentChunked parsedQuotient server file chunkSize =
     upload_blocks server file chunkSize (blockCount parsedQuotient (length file) chunkSize)"



section \<open>OData entity parsing (odata.ts, second part of packages/sp/src/site-designs/types.ts)\<close>

text \<open>
  A value of a decoded JSON payload, or \<^verbatim>\<open>undefined\<close> as a property read can give it.
  A nested object is the list of its properties (the first binding of a name counts). The
  payload itself and a queryable node are objects seen from outside: maps from own
  property names to values.
\<close>

datatype js_value =
    JUndefined
  | JNull
  | JBool bool
  | JNum int
  | JStr string
  | JObj "(string \<times> js_value) list"

type_synonym js_object = "string \<rightharpoonup> js_value"

text \<open>\<^verbatim>\<open>hOP(o, p)\<close> is \<^verbatim>\<open>Object.hasOwnProperty.call(o, p)\<close>; \<^verbatim>\<open>o[p]\<close> reads the property.\<close>

definition hOP :: "js_object \<Rightarrow> string \<Rightarrow> bool" where
  "hOP obj p = (obj p \<noteq> None)"

definition get :: "js_object \<Rightarrow> string \<Rightarrow> js_value" where
  "get obj p = (case obj p of None \<Rightarrow> JUndefined | Some v \<Rightarrow> v)"

text \<open>
  The read \<^verbatim>\<open>v.uri\<close> on a value: a \<^verbatim>\<open>TypeError\<close> on \<^verbatim>\<open>null\<close> and
  \<^verbatim>\<open>undefined\<close>, the property of an object, \<^verbatim>\<open>undefined\<close> on a boolean, a number
  or a string (none has a property of a name used here).
\<close>

fun member :: "js_value \<Rightarrow> string \<Rightarrow> js_error + js_value" where
  "member JUndefined p = Inl TypeError"
| "member JNull p = Inl TypeError"
| "member (JObj ps) p = Inr (case map_of ps p of None \<Rightarrow> JUndefined | Some v \<Rightarrow> v)"
| "member (JBool b) p = Inr JUndefined"
| "member (JNum n) p = Inr JUndefined"
| "member (JStr s) p = Inr JUndefined"

text \<open>
  The array \<^verbatim>\<open>parts\<close> that \<^verbatim>\<open>odataUrlFrom\<close> fills, with
  \<^verbatim>\<open>s = ["odata.type", "odata.editLink", "__metadata", "odata.metadata"]\<close>.
  \<^verbatim>\<open>extractWebUrl\<close> is imported from \<^verbatim>\<open>./utils/extractweburl\<close>, outside these sources:
  it is a parameter.
\<close>

definition odata_parts :: "(js_value \<Rightarrow> string) \<Rightarrow> js_object \<Rightarrow> js_error + js_value list" where
  "odata_parts extractWebUrl candidate =
     (if hOP candidate ''odata.type'' \<and> get candidate ''odata.type'' = JStr ''SP.Web'' then
        (if hOP candidate ''odata.editLink'' then
           Inr [get candidate ''odata.editLink'']
         else if hOP candidate ''__metadata'' then
           (case member (get candidate ''__metadata'') ''uri'' of
              Inl e \<Rightarrow> Inl e
            | Inr uri \<Rightarrow> Inr [uri])
         else Inr [])
      else
        (if hOP candidate ''odata.metadata'' \<and> hOP candidate ''odata.editLink'' then
           Inr [JStr (extractWebUrl (get candidate ''odata.metadata'')), JStr ''_api'',
                get candidate ''odata.editLink'']
         else if hOP candidate ''odata.editLink'' then
           Inr [JStr ''_api'', get candidate ''odata.editLink'']
         else if hOP candidate ''__metadata'' then
           (case member (get candidate ''__metadata'') ''uri'' of
              Inl e \<Rightarrow> Inl e
            | Inr uri \<Rightarrow> Inr [uri])
         else Inr []))"

definition no_uri_warning :: string where
  "no_uri_warning =
     ''No uri information found in ODataEntity parsing, chaining will fail for this object.''"

text \<open>
  \<^verbatim>\<open>odataUrlFrom\<close> returns the URL together with what it wrote to the log
  (\<^verbatim>\<open>Logger.write(..., LogLevel.Warning)\<close>). \<^verbatim>\<open>combine\<close> is imported from
  \<^verbatim>\<open>@pnp/common\<close>, outside these sources: it is a parameter.
\<close>

definition odataUrlFrom ::
  "(js_value list \<Rightarrow> string) \<Rightarrow> (js_value \<Rightarrow> string) \<Rightarrow> js_object
     \<Rightarrow> js_error + string list \<times> string" where
  "odataUrlFrom combine extractWebUrl candidate =
     (case odata_parts extractWebUrl candidate of
        Inl e \<Rightarrow> Inl e
      | Inr parts \<Rightarrow>
          if length parts < 1 then Inr ([no_uri_warning], '''')
          else Inr ([], combine parts))"

text \<open>
  Modelled from the spec: \<^verbatim>\<open>assign\<close> is imported from \<^verbatim>\<open>@pnp/common\<close>, outside these
  sources. The spec (4.2) has the parser "shallow-merge the JSON properties onto that
  node": every own property of the source is stored on the target, in place of a
  property of the same name.
\<close>

definition assign :: "js_object \<Rightarrow> js_object \<Rightarrow> js_object" where
  "assign target source = target ++ source"

text \<open>
  \<^verbatim>\<open>const o = new this.factory(odataUrlFrom(d), null); return assign(o, d);\<close>
  The factory is the constructor the parser was made with; it is a parameter, from the base
  URL to the node it builds or the error it throws. \<^verbatim>\<open>parse\<close> runs the same two lines
  on the decoded body of the response.
\<close>

definition hydrate ::
  "(js_value list \<Rightarrow> string) \<Rightarrow> (js_value \<Rightarrow> string) \<Rightarrow> (string \<Rightarrow> js_error + js_object)
     \<Rightarrow> js_object \<Rightarrow> js_error + string list \<times> js_object" where
  "hydrate combine extractWebUrl factory d =
     (case odataUrlFrom combine extractWebUrl d of
        Inl e \<Rightarrow> Inl e
      | Inr (logged, url) \<Rightarrow>
          (case factory url of
             Inl e \<Rightarrow> Inl e
           | Inr node \<Rightarrow> Inr (logged, assign node d)))"


text \<open>The property names that \<^verbatim>\<open>odataUrlFrom\<close> reads.\<close>

definition odata_keys :: "string set" where
  "odata_keys = {''odata.type'', ''odata.editLink'', ''__metadata'', ''odata.metadata''}"

text \<open>
  Modelled from the spec: \<^verbatim>\<open>combine\<close> (\<^verbatim>\<open>@pnp/common\<close>) is not under these sources.
  The spec (4.1) has it join a parent URL and a path segment into one URL "with duplicate
  slashes collapsed": the parts that are non-empty strings lose a slash at either end and
  are joined with one slash.
\<close>

fun path_parts :: "js_value list \<Rightarrow> string list" where
  "path_parts [] = []"
| "path_parts (JStr s # vs) = (if s = [] then path_parts vs else s # path_parts vs)"
| "path_parts (v # vs) = path_parts vs"

definition trim_slash :: "string \<Rightarrow> string" where
  "trim_slash s =
     (let t = (if s \<noteq> [] \<and> hd s = CHR ''/'' then tl s else s)
      in if t \<noteq> [] \<and> last t = CHR ''/'' then butlast t else t)"

fun join_slash :: "string list \<Rightarrow> string" where
  "join_slash [] = []"
| "join_slash [s] = s"
| "join_slash (s # t # ts) = s @ ''/'' @ join_slash (t # ts)"

definition combine :: "js_value list \<Rightarrow> string" where
  "combine paths = join_slash (map trim_slash (path_parts paths))"

section \<open>Path segments with OData literals (site groups, site users)\<close>

text \<open>
  \<^verbatim>\<open>encodeURIComponent\<close> of the language: a character of the unreserved set
  \<^verbatim>\<open>A-Z a-z 0-9 - _ . ! ~ * ' ( )\<close> stays, every other byte of the UTF-8 form becomes
  \<^verbatim>\<open>%XX\<close> in upper-case hexadecimal. A \<open>string\<close> holds the UTF-8 bytes here, which
  for ASCII text are the characters.
\<close>

definition uri_unreserved :: "char \<Rightarrow> bool" where
  "uri_unreserved c =
     (c \<in> set (''ABCDEFGHIJKLMNOPQRSTUVWXYZabcdefghijklmnopqrstuvwxyz0123456789-_.!~*()'' @ quote))"

definition hex_digit :: "nat \<Rightarrow> char" where
  "hex_digit n = ''0123456789ABCDEF'' ! (n mod 16)"

definition percent_encode :: "char \<Rightarrow> string" where
  "percent_encode c =
     [CHR ''%'', hex_digit (of_char c div 16), hex_digit (of_char c mod 16)]"

definition encodeURIComponent :: "string \<Rightarrow> string" where
  "encodeURIComponent s =
     concat (map (\<lambda>c. if uri_unreserved c then [c] else percent_encode c) s)"

text \<open>
  \<^verbatim>\<open>SiteGroups.getByName\<close>:
  \<^verbatim>\<open>return new SiteGroup(this, `getByName('${groupName}')`);\<close>
  The constructor is a parameter (the parent and the path segment to the node).
\<close>

definition getByName :: "('q \<Rightarrow> string \<Rightarrow> 'n) \<Rightarrow> 'q \<Rightarrow> string \<Rightarrow> 'n" where
  "getByName SiteGroup this groupName =
     SiteGroup this (''getByName('' @ quote @ groupName @ quote @ '')'')"

text \<open>
  \<^verbatim>\<open>_SiteUsers.getByLoginName\<close>:
  \<^verbatim>\<open>return SiteUser(this).concat(`('!@v::${encodeURIComponent(loginName)}')`);\<close>
  The factory \<^verbatim>\<open>SiteUser\<close> and the method \<^verbatim>\<open>concat\<close> of the node are parameters.
\<close>

definition getByLoginName :: "('q \<Rightarrow> 'n) \<Rightarrow> ('n \<Rightarrow> string \<Rightarrow> 'n) \<Rightarrow> 'q \<Rightarrow> string \<Rightarrow> 'n" where
  "getByLoginName SiteUser concat_path this loginName =
     concat_path (SiteUser this)
       (''('' @ quote @ ''!@v::'' @ encodeURIComponent loginName @ quote @ '')'')"

text \<open>
  A segment is escaped when it holds only unreserved characters and the \<^verbatim>\<open>%\<close>, \<^verbatim>\<open>:\<close>
  and \<^verbatim>\<open>@\<close> of escapes and aliases; its string literals are closed when its single
  quotes pair up (a quote inside a literal is doubled in OData).
\<close>

definition segment_escaped :: "string \<Rightarrow> bool" where
  "segment_escaped seg = list_all (\<lambda>c. uri_unreserved c \<or> c \<in> set ''%:@'') seg"

definition literals_closed :: "string \<Rightarrow> bool" where
  "literals_closed seg = even (length (filter (\<lambda>c. c = CHR 0x27) seg))"

section \<open>Queryable nodes and their query maps (clone, removeByLoginName)\<close>

text \<open>
  A node of the source is an object with a URL and a reference to a \<^verbatim>\<open>Map\<close> of query
  parameters; \<^verbatim>\<open>o.query.set(k, v)\<close> writes into the map that \<^verbatim>\<open>o.query\<close> refers to.
  Whether two nodes share a map is what the claim is about, so both kinds of object live in
  a store: nodes and maps are addressed by their index, and a node holds the index of its
  map. An ordered mapping is the list of its entries in insertion order.
\<close>

record queryable =
  url :: string
  parentUrl :: string
  query :: nat

record store =
  nodes :: "queryable list"
  maps :: "(string \<times> string) list list"

text \<open>\<^verbatim>\<open>Map.prototype.set\<close>: the value of a present key is replaced in place, a new key is added last.\<close>

fun map_set :: "string \<Rightarrow> string \<Rightarrow> (string \<times> string) list \<Rightarrow> (string \<times> string) list" where
  "map_set k v [] = [(k, v)]"
| "map_set k v ((a, b) # m) = (if a = k then (a, v) # m else (a, b) # map_set k v m)"

definition query_set :: "store \<Rightarrow> nat \<Rightarrow> string \<Rightarrow> string \<Rightarrow> store" where
  "query_set s n k v =
     (let r = query (nodes s ! n)
      in s\<lparr>maps := (maps s)[r := map_set k v (maps s ! r)]\<rparr>)"

text \<open>
  Modelled from the spec: \<^verbatim>\<open>clone\<close> is a method of the queryable base class
  (\<^verbatim>\<open>sharepointqueryable\<close>, \<^verbatim>\<open>@pnp/odata\<close>), not under these sources. The spec (3, 4.1):
  a Queryable is \<^verbatim>\<open>{ url, query: ordered mapping string -> string, parentUrl }\<close>;
  \<^verbatim>\<open>clone(factory, pathSegment, inheritQuery=true)\<close> gives a new node whose URL is
  \<^verbatim>\<open>combine(parentUrl, pathSegment)\<close>, the URL of the node cloned being the parent URL
  of the new one, and whose query parameters are a shallow copy: a new map with the
  parent's entries, or an empty one when the query is not inherited. The factory only
  fixes the public type of the node.
\<close>

definition clone :: "store \<Rightarrow> nat \<Rightarrow> string \<Rightarrow> bool \<Rightarrow> nat \<times> store" where
  "clone s this pathSegment inheritQuery =
     (let parent = nodes s ! this;
          copied = (if inheritQuery then maps s ! query parent else []);
          child = \<lparr>url = combine [JStr (url parent), JStr pathSegment],
                   parentUrl = url parent,
                   query = length (maps s)\<rparr>
      in (length (nodes s), s\<lparr>nodes := nodes s @ [child], maps := maps s @ [copied]\<rparr>))"

text \<open>A request as \<^verbatim>\<open>spPost\<close> sends it: the URL of the node and the entries of its query.\<close>

definition request_of :: "store \<Rightarrow> nat \<Rightarrow> string \<times> (string \<times> string) list" where
  "request_of s n = (url (nodes s ! n), maps s ! query (nodes s ! n))"

text \<open>
  \<^verbatim>\<open>_SiteUsers.removeByLoginName\<close>:
  \<^verbatim>\<open>const o = this.clone(SiteUsers, `removeByLoginName(@v)`);
  o.query.set("@v", `'${encodeURIComponent(loginName)}'`);
  return spPost(o);\<close>
\<close>

definition removeByLoginName ::
  "store \<Rightarrow> nat \<Rightarrow> string \<Rightarrow> (string \<times> (string \<times> string) list) sp_call list \<times> store" where
  "removeByLoginName s this loginName =
     (let (child, s1) = clone s this ''removeByLoginName(@v)'' True;
          s2 = query_set s1 child ''@v'' (quote @ encodeURIComponent loginName @ quote)
      in ([SpPost (request_of s2 child)], s2))"

text \<open>Every node of the store refers to a map of the store.\<close>

definition store_ok :: "store \<Rightarrow> bool" where
  "store_ok s = list_all (\<lambda>n. query n < length (maps s)) (nodes s)"

text \<open>The objects of \<open>s\<close> are in \<open>s'\<close> as they were: the same nodes and the same maps.\<close>

definition unchanged :: "store \<Rightarrow> store \<Rightarrow> bool" where
  "unchanged s s' =
     (take (length (nodes s)) (nodes s') = nodes s \<and> take (length (maps s)) (maps s') = maps s)"

section \<open>The batch coordinator\<close>

text \<open>
  Modelled from the spec: the batch (\<^verbatim>\<open>./batch\<close> of \<^verbatim>\<open>@pnp/odata\<close>, exported by the
  package index) is not under these sources; only its ordering tests are. The model
  follows the spec's sections 3, 4.3, 4.4, 5 and 7.

  A Pending Request carries the sequence id it got at registration (its insertion
  position), the HTTP method, relative URL, headers and body of its sub-request, and the
  parser bound to it. A Batch has its requests in registration order, an id, and a state:
  \<open>Open\<close> (accepting registrations), \<open>Executing\<close> (serialised, the one HTTP call in
  flight), and the terminal \<open>Completed\<close> and \<open>Failed\<close>.
\<close>

datatype batch_error =
    BatchStateError
  | TransportError string
  | ParseError string

datatype batch_state = Open | Executing | Completed | Failed

record sub_request =
  http_method :: string
  rel_url :: string
  headers :: "(string \<times> string) list"
  body :: "string option"

record pending_request =
  seq :: nat
  sub :: sub_request
  parser :: "string \<Rightarrow> batch_error + string"

record batch =
  state :: batch_state
  requests :: "pending_request list"
  batch_id :: string

text \<open>
  Modelled from the spec: what a caller can observe while a batch executes (4.4, 5, 8),
  in the order it happens on the single thread: the one outbound call with the sub-requests it carries, the settlement of the
  promise of registration \<open>i\<close> with its parsed value or its error, the scheduling and
  the run of the callback the caller attached to that promise, and the resolution of the
  batch's own completion promise.
\<close>

datatype batch_event =
    Dispatched "sub_request list"
  | Settled nat "batch_error + string"
  | CallbackScheduled nat
  | CallbackRan nat
  | BatchResolved

text \<open>Modelled from the spec: \<^verbatim>\<open>createBatch()\<close> gives an open batch with no request (3).\<close>

definition createBatch :: "string \<Rightarrow> batch" where
  "createBatch ident = \<lparr>state = Open, requests = [], batch_id = ident\<rparr>"

text \<open>
  Modelled from the spec: registration (4.3, 4.4 step 1). Invoking a node tagged
  \<^verbatim>\<open>inBatch(batch)\<close> adds one Pending Request with the next sequence id. On a batch that is not open it throws
  \<open>BatchStateError\<close> (5, 7) and the batch stays as it is.
\<close>

definition register ::
  "sub_request \<Rightarrow> (string \<Rightarrow> batch_error + string) \<Rightarrow> batch \<Rightarrow> batch_error + batch" where
  "register r p b =
     (if state b = Open
      then Inr (b\<lparr>requests := requests b @ [\<lparr>seq = length (requests b), sub = r, parser = p\<rparr>]\<rparr>)
      else Inl BatchStateError)"

text \<open>Modelled from the spec: the registrations of a program, one after the other.\<close>

fun register_all ::
  "(sub_request \<times> (string \<Rightarrow> batch_error + string)) list \<Rightarrow> batch \<Rightarrow> batch_error + batch" where
  "register_all [] b = Inr b"
| "register_all ((r, p) # rs) b =
     (case register r p b of Inl e \<Rightarrow> Inl e | Inr b' \<Rightarrow> register_all rs b')"

text \<open>
  Modelled from the spec: demultiplexing (4.4 steps 4 and 5, and the ordering guarantee).
  The fragments of the response are matched to the requests by position; each goes through the parser of its request, the promise of the
  request is settled with the outcome, and the callback attached to it is scheduled and
  runs before the next request is settled. A request without a fragment gets a parse
  error of its own; the others are settled all the same.
\<close>

fun demultiplex :: "pending_request list \<Rightarrow> string list \<Rightarrow> batch_event list" where
  "demultiplex [] fragments = []"
| "demultiplex (p # ps) [] =
     [Settled (seq p) (Inl (ParseError ''no response fragment'')),
      CallbackScheduled (seq p), CallbackRan (seq p)] @ demultiplex ps []"
| "demultiplex (p # ps) (f # fs) =
     [Settled (seq p) (parser p f), CallbackScheduled (seq p), CallbackRan (seq p)]
       @ demultiplex ps fs"

text \<open>
  Modelled from the spec: a transport failure (4.4, Failure). Every request of the batch
  is rejected with the same error, and the callback attached to it runs.
\<close>

fun reject_all :: "batch_error \<Rightarrow> pending_request list \<Rightarrow> batch_event list" where
  "reject_all e [] = []"
| "reject_all e (p # ps) =
     [Settled (seq p) (Inl e), CallbackScheduled (seq p), CallbackRan (seq p)] @ reject_all e ps"

text \<open>
  Modelled from the spec: \<^verbatim>\<open>execute()\<close> (4.4 steps 2 to 5). On an open batch it
  serialises the sub-requests in registration order and dispatches one call; the batch is \<open>Executing\<close> while the call
  is in flight (\<open>begin_execute\<close>). When the transport answers (\<open>finish_execute\<close>), the
  batch demultiplexes the fragments and completes, or fails as a whole. On a batch that is
  not open \<^verbatim>\<open>execute()\<close> throws \<open>BatchStateError\<close> (3, 7). The transport is the
  injected capability of section 6: from the sub-requests to the fragments of the response
  or the error of the envelope.
\<close>

definition begin_execute :: "batch \<Rightarrow> batch_error + batch \<times> batch_event list" where
  "begin_execute b =
     (if state b = Open
      then Inr (b\<lparr>state := Executing\<rparr>, [Dispatched (map sub (requests b))])
      else Inl BatchStateError)"

definition finish_execute ::
  "batch_error + string list \<Rightarrow> batch \<Rightarrow> batch_error + batch \<times> batch_event list" where
  "finish_execute response b =
     (if state b = Executing then
        (case response of
           Inl e \<Rightarrow> Inr (b\<lparr>state := Failed\<rparr>, reject_all e (requests b))
         | Inr fragments \<Rightarrow>
             Inr (b\<lparr>state := Completed\<rparr>, demultiplex (requests b) fragments @ [BatchResolved]))
      else Inl BatchStateError)"

definition execute ::
  "(sub_request list \<Rightarrow> batch_error + string list) \<Rightarrow> batch
     \<Rightarrow> batch_error + batch \<times> batch_event list" where
  "execute transport b =
     (case begin_execute b of
        Inl e \<Rightarrow> Inl e
      | Inr (b1, sent) \<Rightarrow>
          (case finish_execute (transport (map sub (requests b))) b1 of
             Inl e \<Rightarrow> Inl e
           | Inr (b2, settled) \<Rightarrow> Inr (b2, sent @ settled)))"

text \<open>
  Modelled from the spec: the calls a program can make on a batch (3), and a run of such
  calls: a call that throws leaves the batch as it is, and the run goes on (the caller may catch the error).
\<close>

datatype batch_call =
    Register sub_request "string \<Rightarrow> batch_error + string"
  | Execute "sub_request list \<Rightarrow> batch_error + string list"

fun call :: "batch_call \<Rightarrow> batch \<Rightarrow> batch_error + batch \<times> batch_event list" where
  "call (Register r p) b = (case register r p b of Inl e \<Rightarrow> Inl e | Inr b' \<Rightarrow> Inr (b', []))"
| "call (Execute transport) b = execute transport b"

fun run :: "batch_call list \<Rightarrow> batch \<Rightarrow> batch \<times> batch_event list" where
  "run [] b = (b, [])"
| "run (c # cs) b =
     (case call c b of
        Inl e \<Rightarrow> run cs b
      | Inr (b', events) \<Rightarrow> (case run cs b' of (b'', later) \<Rightarrow> (b'', events @ later)))"

text \<open>
  The array \<^verbatim>\<open>order\<close> of the ordering tests: the callback of the \<open>i\<close>-th registration
  (counted from 1) pushes \<open>i\<close>, the callback on \<^verbatim>\<open>batch.execute()\<close> pushes the number
  after the last.
\<close>

fun pushed :: "nat \<Rightarrow> batch_event list \<Rightarrow> nat list" where
  "pushed n [] = []"
| "pushed n (CallbackRan i # es) = Suc i # pushed n es"
| "pushed n (BatchResolved # es) = Suc n # pushed n es"
| "pushed n (e # es) = pushed n es"

text \<open>Event \<open>a\<close> happens before the first occurrence of event \<open>b\<close>.\<close>

definition happens_before :: "batch_event \<Rightarrow> batch_event \<Rightarrow> batch_event list \<Rightarrow> bool" where
  "happens_before a b events = (a \<in> set (takeWhile (\<lambda>e. e \<noteq> b) events))"

text \<open>The events of settling the requests numbered from \<open>i\<close> on, one after the other.\<close>

fun settle_events :: "nat \<Rightarrow> (batch_error + string) list \<Rightarrow> batch_event list" where
  "settle_events i [] = []"
| "settle_events i (v # vs) =
     [Settled i v, CallbackScheduled i, CallbackRan i] @ settle_events (Suc i) vs"

text \<open>The outcomes of the requests of a batch on the fragments of a response, by position.\<close>

fun outcomes :: "pending_request list \<Rightarrow> string list \<Rightarrow> (batch_error + string) list" where
  "outcomes [] fragments = []"
| "outcomes (p # ps) [] = Inl (ParseError ''no response fragment'') # outcomes ps []"
| "outcomes (p # ps) (f # fs) = parser p f # outcomes ps fs"

text \<open>
  The ordering tests of the sources (\<^verbatim>\<open>describe("Batching", ...)\<close>): a new batch, the
  calls registered on it with \<^verbatim>\<open>inBatch(batch)\<close>, each with a callback that pushes its
  number, then \<^verbatim>\<open>batch.execute()\<close> with a callback that pushes the last number and
  returns the array.
\<close>

definition get_request :: "string \<Rightarrow> sub_request" where
  "get_request u = \<lparr>http_method = ''GET'', rel_url = u, headers = [], body = None\<rparr>"

definition ordering_test ::
  "(sub_request \<times> (string \<Rightarrow> batch_error + string)) list
     \<Rightarrow> (sub_request list \<Rightarrow> batch_error + string list) \<Rightarrow> batch_error + nat list" where
  "ordering_test rs transport =
     (case register_all rs (createBatch ''batch'') of
        Inl e \<Rightarrow> Inl e
      | Inr b \<Rightarrow>
          (case execute transport b of
             Inl e \<Rightarrow> Inl e
           | Inr (b', events) \<Rightarrow> Inr (pushed (length rs) events)))"


section \<open>Canvas ordering: proofs\<close>

lemma reindex_frame:
  "c \<notin> set (cells_item x) \<Longrightarrow> reindex_item i x h c = h c"
  "c \<notin> set (cells_list xs) \<Longrightarrow> reindex_loop i xs h c = h c"
  by (induction i x h and i xs h rule: reindex_item_reindex_loop.induct) simp_all

lemma stepped_agree:
  "(\<And>c. c \<in> set (cells_item x) \<Longrightarrow> h c = h' c) \<Longrightarrow> stepped_item h i x = stepped_item h' i x"
  "(\<And>c. c \<in> set (cells_list xs) \<Longrightarrow> h c = h' c) \<Longrightarrow> stepped_from h i xs = stepped_from h' i xs"
  by (induction h i x and h i xs rule: stepped_item_stepped_from.induct) auto

lemma reindex_steps_distinct:
  "distinct (cells_item x) \<Longrightarrow> stepped_item (reindex_item i x h) i x"
  "distinct (cells_list xs) \<Longrightarrow> stepped_from (reindex_loop i xs h) i xs"
proof (induction i x h and i xs h rule: reindex_item_reindex_loop.induct)
  case (1 i c cols ctls h)
  from "1.prems" have fresh: "c \<notin> set (cells_list cols)" and d: "distinct (cells_list cols)"
    by simp_all
  let ?h = "reindex_loop 0 cols (h(c := int i + 1))"
  from reindex_frame(2) [OF fresh] have "?h c = int i + 1" by simp
  moreover from "1.IH" [OF d] have "stepped_from ?h 0 cols" .
  ultimately show ?case by simp
next
  case (2 i c ctls h)
  from "2.prems" have fresh: "c \<notin> set (cells_list ctls)" and d: "distinct (cells_list ctls)"
    by simp_all
  let ?h = "reindex_loop 0 ctls (h(c := int i + 1))"
  from reindex_frame(2) [OF fresh] have "?h c = int i + 1" by simp
  moreover from "2.IH" [OF d] have "stepped_from ?h 0 ctls" .
  ultimately show ?case by simp
next
  case (3 i c h)
  show ?case by simp
next
  case (4 i h)
  show ?case by simp
next
  case (5 i x xs h)
  from "5.prems" have dx: "distinct (cells_item x)" and dxs: "distinct (cells_list xs)"
    and disj: "set (cells_item x) \<inter> set (cells_list xs) = {}"
    by simp_all
  let ?h1 = "reindex_item i x h"
  let ?h2 = "reindex_loop (Suc i) xs ?h1"
  have "\<And>c. c \<in> set (cells_item x) \<Longrightarrow> ?h2 c = ?h1 c"
    using disj by (intro reindex_frame(2)) blast
  then have "stepped_item ?h2 i x = stepped_item ?h1 i x"
    by (rule stepped_agree(1))
  with "5.IH"(1) [OF dx] have "stepped_item ?h2 i x" by simp
  moreover from "5.IH"(2) [OF dxs] have "stepped_from ?h2 (Suc i) xs" .
  ultimately show ?case by simp
qed

text \<open>
  Where every object has an order cell of its own, \<^verbatim>\<open>reindex\<close> does what its docstring
  says.
\<close>

lemma reindex_steps_unshared:
  assumes "distinct (cells_list collection)"
  shows "stepped_from (reindex collection h) 0 collection"
  using assms by (simp add: reindex_def reindex_steps_distinct)

text \<open>
  Claim C10, evaluated on the code. A page with one section whose three columns were made
  by \<^verbatim>\<open>addColumn\<close>: each is \<^verbatim>\<open>new CanvasColumn()\<close>, so the three share the \<^verbatim>\<open>json\<close>
  object \<^verbatim>\<open>CanvasColumn.Default\<close> and their \<^verbatim>\<open>order\<close> is one cell (cell 1, holding 3
  after the third \<^verbatim>\<open>addColumn\<close>); the section's order is cell 0. After
  \<^verbatim>\<open>reindex(page.sections)\<close> the section reads 1 and the three columns all read 3, where
  the claim has 1, 2, 3.
\<close>

theorem reindex_shared_default_orders:
  "map (order_of (reindex
          [Orderable 0 (Some [Orderable 1 None (Some []), Orderable 1 None (Some []),
                              Orderable 1 None (Some [])]) None]
          ((\<lambda>c. 0)(0 := 1, 1 := 3))))
       [Orderable 1 None (Some []), Orderable 1 None (Some []), Orderable 1 None (Some [])]
     = [3, 3, 3]
   \<and> \<not> stepped_from (reindex
          [Orderable 0 (Some [Orderable 1 None (Some []), Orderable 1 None (Some []),
                              Orderable 1 None (Some [])]) None]
          ((\<lambda>c. 0)(0 := 1, 1 := 3)))
        0
        [Orderable 0 (Some [Orderable 1 None (Some []), Orderable 1 None (Some []),
                            Orderable 1 None (Some [])]) None]"
  by (simp add: reindex_def order_of_def)

section \<open>File operations: proofs\<close>

lemma running_total_append:
  "running_total (es @ fs) = running_total es + running_total fs"
  by (simp add: running_total_def)













text \<open>The requests of the first of these uploads, evaluated.\<close>

lemma setContentChunked_seven_bytes:
  "setContentChunked whole_quotient running_total [1, 2, 3, 4, 5, 6, 7 :: nat] 3
     = [Progress ''starting'' 1 0 2, StartUpload [1, 2, 3],
        Progress ''finishing'' 2 3 2, FinishUpload 3 [4, 5, 6, 7]]"
  by code_simp

lemma setContentChunked_ten_bytes:
  "setContentChunked whole_quotient running_total [1, 2, 3, 4, 5, 6, 7, 8, 9, 10 :: nat] 3
     = [Progress ''starting'' 1 0 3, StartUpload [1, 2, 3],
        Progress ''continue'' 2 3 3, ContinueUpload 3 [4, 5, 6],
        Progress ''finishing'' 3 6 3, FinishUpload 6 [7, 8, 9, 10]]"
  by code_simp

subsection \<open>The comment length guard\<close>

lemma long_comment_throws:
  assumes "1023 < length comment"
  shows "checkin cloneFile esc comment checkinType = Inl (Error max_comment)"
    and "deny cloneFile esc comment = Inl (Error max_comment)"
    and "publish cloneFile esc comment = Inl (Error max_comment)"
    and "unpublish cloneFile esc comment = Inl (Error max_comment)"
  using assms by (simp_all add: checkin_def deny_def publish_def unpublish_def)

lemma short_comment_posts:
  assumes "length comment \<le> 1023"
  shows "checkin cloneFile esc comment checkinType =
           Inr [SpPost (cloneFile (''checkin(comment='' @ quote @ esc comment @ quote
                  @ '',checkintype='' @ CheckinType_text checkinType @ '')''))]"
    and "deny cloneFile esc comment =
           Inr [SpPost (cloneFile (''deny(comment='' @ quote @ esc comment @ quote @ '')''))]"
    and "publish cloneFile esc comment =
           Inr [SpPost (cloneFile (''publish(comment='' @ quote @ esc comment @ quote @ '')''))]"
    and "unpublish cloneFile esc comment =
           Inr [SpPost (cloneFile (''unpublish(comment='' @ quote @ esc comment @ quote @ '')''))]"
  using assms by (simp_all add: checkin_def deny_def publish_def unpublish_def)

text \<open>
  Claim C8. With a comment of more than 1023 characters, \<^verbatim>\<open>checkin\<close>, \<^verbatim>\<open>deny\<close>,
  \<^verbatim>\<open>publish\<close> and \<^verbatim>\<open>unpublish\<close> throw the error with the message "The maximum comment
  length is 1023 characters." and issue no request; with a comment of at most 1023
  characters each returns having issued exactly one POST, on the node cloned with its own
  endpoint.
\<close>

theorem comment_guard_before_post:
  "max_comment = ''The maximum comment length is 1023 characters.''
   \<and> (1023 < length comment \<longrightarrow>
        checkin cloneFile esc comment checkinType = Inl (Error max_comment)
        \<and> deny cloneFile esc comment = Inl (Error max_comment)
        \<and> publish cloneFile esc comment = Inl (Error max_comment)
        \<and> unpublish cloneFile esc comment = Inl (Error max_comment))
   \<and> (length comment \<le> 1023 \<longrightarrow>
        checkin cloneFile esc comment checkinType =
           Inr [SpPost (cloneFile (''checkin(comment='' @ quote @ esc comment @ quote
                  @ '',checkintype='' @ CheckinType_text checkinType @ '')''))]
        \<and> deny cloneFile esc comment =
           Inr [SpPost (cloneFile (''deny(comment='' @ quote @ esc comment @ quote @ '')''))]
        \<and> publish cloneFile esc comment =
           Inr [SpPost (cloneFile (''publish(comment='' @ quote @ esc comment @ quote @ '')''))]
        \<and> unpublish cloneFile esc comment =
           Inr [SpPost (cloneFile (''unpublish(comment='' @ quote @ esc comment @ quote @ '')''))])"
proof (intro conjI impI)
  show "max_comment = ''The maximum comment length is 1023 characters.''"
    by (simp add: max_comment_def)
next
  assume long: "1023 < length comment"
  from long_comment_throws [OF long]
  show "checkin cloneFile esc comment checkinType = Inl (Error max_comment)"
    and "deny cloneFile esc comment = Inl (Error max_comment)"
    and "publish cloneFile esc comment = Inl (Error max_comment)"
    and "unpublish cloneFile esc comment = Inl (Error max_comment)"
    by blast+
next
  assume short: "length comment \<le> 1023"
  from short_comment_posts [OF short]
  show "checkin cloneFile esc comment checkinType =
           Inr [SpPost (cloneFile (''checkin(comment='' @ quote @ esc comment @ quote
                  @ '',checkintype='' @ CheckinType_text checkinType @ '')''))]"
    and "deny cloneFile esc comment =
           Inr [SpPost (cloneFile (''deny(comment='' @ quote @ esc comment @ quote @ '')''))]"
    and "publish cloneFile esc comment =
           Inr [SpPost (cloneFile (''publish(comment='' @ quote @ esc comment @ quote @ '')''))]"
    and "unpublish cloneFile esc comment =
           Inr [SpPost (cloneFile (''unpublish(comment='' @ quote @ esc comment @ quote @ '')''))]"
    by blast+
qed

text \<open>
  The theorem at a comment of 1024 characters and at the comment \<^verbatim>\<open>done\<close>, with a \<open>cloneFile\<close>
  that appends the path to the file's URL and an escape that changes nothing.
\<close>

theorem comment_guard_before_post_witness:
  "1023 < length (replicate 1024 (CHR ''x''))
   \<and> checkin (\<lambda>path. ''_api/web/file/'' @ path) (\<lambda>s. s) (replicate 1024 (CHR ''x'')) Major
       = Inl (Error ''The maximum comment length is 1023 characters.'')
   \<and> unpublish (\<lambda>path. ''_api/web/file/'' @ path) (\<lambda>s. s) (replicate 1024 (CHR ''x''))
       = Inl (Error ''The maximum comment length is 1023 characters.'')
   \<and> length ''done'' \<le> 1023
   \<and> checkin (\<lambda>path. ''_api/web/file/'' @ path) (\<lambda>s. s) ''done'' Major
       = Inr [SpPost ''_api/web/file/checkin(comment='done',checkintype=1)'']
   \<and> publish (\<lambda>path. ''_api/web/file/'' @ path) (\<lambda>s. s) ''done''
       = Inr [SpPost ''_api/web/file/publish(comment='done')'']"
  using comment_guard_before_post
      [of "replicate 1024 (CHR ''x'')" "\<lambda>path. ''_api/web/file/'' @ path" "\<lambda>s. s" Major]
    comment_guard_before_post
      [of "''done''" "\<lambda>path. ''_api/web/file/'' @ path" "\<lambda>s. s" Major]
  by (simp add: quote_def)

section \<open>OData entity parsing: proofs\<close>

lemma odata_parts_cong:
  assumes "\<And>k. k \<in> odata_keys \<Longrightarrow> a k = b k"
  shows "odata_parts ext a = odata_parts ext b"
proof -
  have "a ''odata.type'' = b ''odata.type''" "a ''odata.editLink'' = b ''odata.editLink''"
    "a ''__metadata'' = b ''__metadata''" "a ''odata.metadata'' = b ''odata.metadata''"
    using assms by (simp_all add: odata_keys_def)
  then show ?thesis
    by (simp add: odata_parts_def hOP_def get_def)
qed

lemma odataUrlFrom_cong:
  assumes "\<And>k. k \<in> odata_keys \<Longrightarrow> a k = b k"
  shows "odataUrlFrom cmb ext a = odataUrlFrom cmb ext b"
  using odata_parts_cong [of a b ext] assms by (simp add: odataUrlFrom_def)

lemma assign_keeps_source:
  assumes "dom node \<inter> odata_keys = {}" and "k \<in> odata_keys"
  shows "assign node d k = d k"
proof -
  from assms have "node k = None" by blast
  then show ?thesis
    by (cases "d k") (simp_all add: assign_def map_add_def)
qed

lemma assign_twice: "assign node (assign node d) = assign node d"
  by (simp add: assign_def fun_eq_iff map_add_def split: option.splits)

text \<open>
  Claim C3. Hydrating the result of a hydration gives the same object again: the URL
  computed from the hydrated object is the URL computed from the payload, the factory
  builds the same node from it, and merging the hydrated object onto that node changes
  nothing, so the data is not wrapped a second time. The node the factory builds has
  properties of its own (its URL, its query), none of them under one of the four OData
  names that \<^verbatim>\<open>odataUrlFrom\<close> reads.
\<close>

theorem hydrate_idempotent:
  assumes "\<And>url node. factory url = Inr node \<Longrightarrow> dom node \<inter> odata_keys = {}"
    and "hydrate cmb ext factory d = Inr (logged, h)"
  shows "hydrate cmb ext factory h = Inr (logged, h)
         \<and> odataUrlFrom cmb ext h = odataUrlFrom cmb ext d"
proof -
  from assms(2) obtain url node where
    u: "odataUrlFrom cmb ext d = Inr (logged, url)" and
    f: "factory url = Inr node" and
    h: "h = assign node d"
    by (auto simp: hydrate_def split: sum.splits prod.splits)
  from assms(1) [OF f] have "\<And>k. k \<in> odata_keys \<Longrightarrow> h k = d k"
    unfolding h by (rule assign_keeps_source)
  then have same: "odataUrlFrom cmb ext h = odataUrlFrom cmb ext d"
    by (rule odataUrlFrom_cong)
  have "assign node h = h"
    unfolding h by (rule assign_twice)
  with same u f have "hydrate cmb ext factory h = Inr (logged, h)"
    by (simp add: hydrate_def)
  with same show ?thesis by simp
qed

text \<open>
  The theorem at a list payload with an edit link, with a factory that stores the URL on
  the node under \<^verbatim>\<open>_url\<close>.
\<close>

theorem hydrate_idempotent_witness:
  "hydrate combine (\<lambda>v. ''https://c.example/sites/a'') (\<lambda>url. Inr [''_url'' \<mapsto> JStr url])
     [''odata.editLink'' \<mapsto> JStr ''Web/Lists(1)'', ''Title'' \<mapsto> JStr ''Docs'']
     = Inr ([], [''_url'' \<mapsto> JStr ''_api/Web/Lists(1)'',
                 ''odata.editLink'' \<mapsto> JStr ''Web/Lists(1)'', ''Title'' \<mapsto> JStr ''Docs''])
   \<and> hydrate combine (\<lambda>v. ''https://c.example/sites/a'') (\<lambda>url. Inr [''_url'' \<mapsto> JStr url])
     [''_url'' \<mapsto> JStr ''_api/Web/Lists(1)'',
      ''odata.editLink'' \<mapsto> JStr ''Web/Lists(1)'', ''Title'' \<mapsto> JStr ''Docs'']
     = Inr ([], [''_url'' \<mapsto> JStr ''_api/Web/Lists(1)'',
                 ''odata.editLink'' \<mapsto> JStr ''Web/Lists(1)'', ''Title'' \<mapsto> JStr ''Docs''])"
proof -
  let ?factory = "\<lambda>url. Inr [''_url'' \<mapsto> JStr url] :: js_error + js_object"
  have own: "\<And>url node. ?factory url = Inr node \<Longrightarrow> dom node \<inter> odata_keys = {}"
    by (auto simp: odata_keys_def)
  have first: "hydrate combine (\<lambda>v. ''https://c.example/sites/a'') ?factory
     [''odata.editLink'' \<mapsto> JStr ''Web/Lists(1)'', ''Title'' \<mapsto> JStr ''Docs'']
     = Inr ([], [''_url'' \<mapsto> JStr ''_api/Web/Lists(1)'',
                 ''odata.editLink'' \<mapsto> JStr ''Web/Lists(1)'', ''Title'' \<mapsto> JStr ''Docs''])"
    by (simp add: hydrate_def odataUrlFrom_def odata_parts_def hOP_def get_def assign_def
        combine_def trim_slash_def)
  from hydrate_idempotent [of ?factory, OF own first] first show ?thesis by simp
qed

subsection \<open>The metadata conventions\<close>

lemma odata_parts_web_editLink:
  assumes "hOP d ''odata.type''" "get d ''odata.type'' = JStr ''SP.Web''" "hOP d ''odata.editLink''"
  shows "odata_parts ext d = Inr [get d ''odata.editLink'']"
  using assms by (simp add: odata_parts_def)

lemma odata_parts_minimal:
  assumes "\<not> (hOP d ''odata.type'' \<and> get d ''odata.type'' = JStr ''SP.Web'')"
    and "hOP d ''odata.metadata''" "hOP d ''odata.editLink''"
  shows "odata_parts ext d =
           Inr [JStr (ext (get d ''odata.metadata'')), JStr ''_api'', get d ''odata.editLink'']"
  using assms by (simp add: odata_parts_def)

lemma odata_parts_editLink_only:
  assumes "\<not> (hOP d ''odata.type'' \<and> get d ''odata.type'' = JStr ''SP.Web'')"
    and "\<not> hOP d ''odata.metadata''" "hOP d ''odata.editLink''"
  shows "odata_parts ext d = Inr [JStr ''_api'', get d ''odata.editLink'']"
  using assms by (simp add: odata_parts_def)

lemma odata_parts_verbose:
  assumes "\<not> hOP d ''odata.editLink''" "hOP d ''__metadata''"
  shows "odata_parts ext d =
           (case member (get d ''__metadata'') ''uri'' of Inl e \<Rightarrow> Inl e | Inr uri \<Rightarrow> Inr [uri])"
  using assms by (simp add: odata_parts_def)


lemma odataUrlFrom_ignores_id:
  "odataUrlFrom cmb ext (d(''odata.id'' := x)) = odataUrlFrom cmb ext d"
  by (rule odataUrlFrom_cong) (auto simp: odata_keys_def)

lemma hydrate_uses_url:
  assumes "hydrate cmb ext factory d = Inr (logged, h)"
  shows "\<exists>url node. odataUrlFrom cmb ext d = Inr (logged, url)
           \<and> factory url = Inr node \<and> h = assign node d"
  using assms by (auto simp: hydrate_def split: sum.splits prod.splits)

text \<open>
  Claim C2, as the code has it. \<^verbatim>\<open>odataUrlFrom\<close> reads \<^verbatim>\<open>odata.type\<close>,
  \<^verbatim>\<open>odata.editLink\<close>, \<^verbatim>\<open>odata.metadata\<close> and \<^verbatim>\<open>__metadata\<close>, and never
  \<^verbatim>\<open>odata.id\<close>. For a payload that is not an \<^verbatim>\<open>SP.Web\<close>: with \<^verbatim>\<open>odata.metadata\<close> and
  \<^verbatim>\<open>odata.editLink\<close> (minimal metadata) the URL combines the web URL extracted from
  \<^verbatim>\<open>odata.metadata\<close>, \<^verbatim>\<open>_api\<close> and the edit link; with \<^verbatim>\<open>odata.editLink\<close> alone
  it combines \<^verbatim>\<open>_api\<close> and the edit link, a URL relative to the web; with
  \<^verbatim>\<open>__metadata\<close> and no edit link (verbose) it is \<^verbatim>\<open>__metadata.uri\<close>, passed alone
  through \<^verbatim>\<open>combine\<close>. For an \<^verbatim>\<open>SP.Web\<close> with an edit link it is the edit link alone.
  The parser builds the node with its factory on that URL and merges the payload onto it.
\<close>

theorem odataUrlFrom_conventions:
  "(\<not> hOP d ''odata.editLink'' \<and> hOP d ''__metadata'' \<and> get d ''__metadata'' = JObj ps \<longrightarrow>
      odataUrlFrom cmb ext d = Inr ([], cmb [case map_of ps ''uri'' of None \<Rightarrow> JUndefined | Some v \<Rightarrow> v]))
   \<and> (\<not> (hOP d ''odata.type'' \<and> get d ''odata.type'' = JStr ''SP.Web'')
        \<and> hOP d ''odata.metadata'' \<and> hOP d ''odata.editLink'' \<longrightarrow>
      odataUrlFrom cmb ext d =
        Inr ([], cmb [JStr (ext (get d ''odata.metadata'')), JStr ''_api'', get d ''odata.editLink'']))
   \<and> (\<not> (hOP d ''odata.type'' \<and> get d ''odata.type'' = JStr ''SP.Web'')
        \<and> \<not> hOP d ''odata.metadata'' \<and> hOP d ''odata.editLink'' \<longrightarrow>
      odataUrlFrom cmb ext d = Inr ([], cmb [JStr ''_api'', get d ''odata.editLink'']))
   \<and> (hOP d ''odata.type'' \<and> get d ''odata.type'' = JStr ''SP.Web'' \<and> hOP d ''odata.editLink'' \<longrightarrow>
      odataUrlFrom cmb ext d = Inr ([], cmb [get d ''odata.editLink'']))
   \<and> odataUrlFrom cmb ext (d(''odata.id'' := x)) = odataUrlFrom cmb ext d
   \<and> (hydrate cmb ext factory d = Inr (logged, h) \<longrightarrow>
        (\<exists>url node. odataUrlFrom cmb ext d = Inr (logged, url)
           \<and> factory url = Inr node \<and> h = assign node d))"
proof (intro conjI impI)
  assume "\<not> hOP d ''odata.editLink'' \<and> hOP d ''__metadata'' \<and> get d ''__metadata'' = JObj ps"
  then show "odataUrlFrom cmb ext d =
      Inr ([], cmb [case map_of ps ''uri'' of None \<Rightarrow> JUndefined | Some v \<Rightarrow> v])"
    by (simp add: odataUrlFrom_def odata_parts_verbose)
next
  assume "\<not> (hOP d ''odata.type'' \<and> get d ''odata.type'' = JStr ''SP.Web'')
          \<and> hOP d ''odata.metadata'' \<and> hOP d ''odata.editLink''"
  then show "odataUrlFrom cmb ext d =
      Inr ([], cmb [JStr (ext (get d ''odata.metadata'')), JStr ''_api'', get d ''odata.editLink''])"
    by (simp add: odataUrlFrom_def odata_parts_minimal)
next
  assume "\<not> (hOP d ''odata.type'' \<and> get d ''odata.type'' = JStr ''SP.Web'')
          \<and> \<not> hOP d ''odata.metadata'' \<and> hOP d ''odata.editLink''"
  then show "odataUrlFrom cmb ext d = Inr ([], cmb [JStr ''_api'', get d ''odata.editLink''])"
    by (simp add: odataUrlFrom_def odata_parts_editLink_only)
next
  assume "hOP d ''odata.type'' \<and> get d ''odata.type'' = JStr ''SP.Web'' \<and> hOP d ''odata.editLink''"
  then show "odataUrlFrom cmb ext d = Inr ([], cmb [get d ''odata.editLink''])"
    by (simp add: odataUrlFrom_def odata_parts_web_editLink)
next
  show "odataUrlFrom cmb ext (d(''odata.id'' := x)) = odataUrlFrom cmb ext d"
    by (rule odataUrlFrom_ignores_id)
next
  assume "hydrate cmb ext factory d = Inr (logged, h)"
  then show "\<exists>url node. odataUrlFrom cmb ext d = Inr (logged, url)
           \<and> factory url = Inr node \<and> h = assign node d"
    by (rule hydrate_uses_url)
qed

text \<open>
  The theorem at a list payload in minimal metadata, with an \<^verbatim>\<open>extractWebUrl\<close> that
  answers the web URL of the payload.
\<close>

theorem odataUrlFrom_conventions_witness:
  "hOP [''odata.metadata'' \<mapsto> JStr ''https://c.example/sites/a/_api/$metadata#lists/@Element'',
        ''odata.editLink'' \<mapsto> JStr ''Web/Lists(1)''] ''odata.metadata''
   \<and> hOP [''odata.metadata'' \<mapsto> JStr ''https://c.example/sites/a/_api/$metadata#lists/@Element'',
        ''odata.editLink'' \<mapsto> JStr ''Web/Lists(1)''] ''odata.editLink''
   \<and> odataUrlFrom combine (\<lambda>v. ''https://c.example/sites/a/'')
        [''odata.metadata'' \<mapsto> JStr ''https://c.example/sites/a/_api/$metadata#lists/@Element'',
         ''odata.editLink'' \<mapsto> JStr ''Web/Lists(1)'']
       = Inr ([], ''https://c.example/sites/a/_api/Web/Lists(1)'')"
  using odataUrlFrom_conventions
    [of "[''odata.metadata'' \<mapsto> JStr ''https://c.example/sites/a/_api/$metadata#lists/@Element'',
          ''odata.editLink'' \<mapsto> JStr ''Web/Lists(1)'']" "[]" combine
        "\<lambda>v. ''https://c.example/sites/a/''"]
  by (simp add: hOP_def get_def combine_def trim_slash_def)

text \<open>
  The claim as written has the minimal convention read \<^verbatim>\<open>odata.id\<close> and the URL
  absolute. A payload with \<^verbatim>\<open>odata.id\<close> and \<^verbatim>\<open>odata.editLink\<close> gets the relative URL
  made of \<^verbatim>\<open>_api\<close> and the edit link; the absolute URL under \<^verbatim>\<open>odata.id\<close> is not used.
\<close>

theorem odataUrlFrom_id_editLink_counterexample:
  "odataUrlFrom combine (\<lambda>v. ''https://c.example/sites/a/'')
     [''odata.id'' \<mapsto> JStr ''https://c.example/sites/a/_api/Web/Lists(1)'',
      ''odata.editLink'' \<mapsto> JStr ''Web/Lists(1)'']
     = Inr ([], ''_api/Web/Lists(1)'')"
  by (simp add: odataUrlFrom_def odata_parts_def hOP_def get_def combine_def trim_slash_def)

subsection \<open>A payload with no OData identity\<close>






section \<open>Path segments: proofs\<close>

text \<open>
  Claim C5, evaluated on the code. \<^verbatim>\<open>SiteGroups.getByName\<close> puts the group name into the
  segment as it is: a name with a quote leaves the string literal unclosed, a name with
  an ampersand, a space and a hash leaves them unescaped. The sibling
  \<^verbatim>\<open>getByLoginName\<close> escapes the same name with \<^verbatim>\<open>encodeURIComponent\<close>.
\<close>

theorem getByName_segment_verbatim:
  "getByName (\<lambda>parent path. parent @ ''/'' @ path) ''sitegroups'' ''O'Brien''
     = ''sitegroups/getByName('O'Brien')''
   \<and> \<not> literals_closed (getByName (\<lambda>parent path. path) ''sitegroups'' ''O'Brien'')
   \<and> getByName (\<lambda>parent path. parent @ ''/'' @ path) ''sitegroups'' ''R&D #1''
     = ''sitegroups/getByName('R&D #1')''
   \<and> \<not> segment_escaped (getByName (\<lambda>parent path. path) ''sitegroups'' ''R&D #1'')
   \<and> getByLoginName (\<lambda>parent. parent) (\<lambda>node path. node @ path) ''siteusers'' ''R&D #1''
     = ''siteusers('!@v::R%26D%20%231')''
   \<and> segment_escaped (getByLoginName (\<lambda>parent. []) (\<lambda>node path. path) ''siteusers'' ''R&D #1'')"
  by (simp add: getByName_def getByLoginName_def quote_def literals_closed_def segment_escaped_def
      encodeURIComponent_def uri_unreserved_def percent_encode_def hex_digit_def)

section \<open>Queryable nodes: proofs\<close>

lemma map_of_map_set: "map_of (map_set k v m) = (map_of m)(k \<mapsto> v)"
  by (induction m) (auto simp: fun_eq_iff)

lemma clone_unchanged:
  assumes "clone s this seg inh = (child, s1)"
  shows "unchanged s s1" and "child = length (nodes s)"
    and "query (nodes s1 ! child) = length (maps s)"
    and "length (maps s1) = Suc (length (maps s))"
    and "maps s1 ! length (maps s) = (if inh then maps s ! query (nodes s ! this) else [])"
    and "url (nodes s1 ! child) = combine [JStr (url (nodes s ! this)), JStr seg]"
  using assms by (auto simp: clone_def Let_def unchanged_def)

lemma query_set_fresh_unchanged:
  assumes "unchanged s s1" and "query (nodes s1 ! child) = length (maps s)"
    and "length (maps s1) = Suc (length (maps s))"
  shows "unchanged s (query_set s1 child k v)"
    and "map_of (maps (query_set s1 child k v) ! length (maps s))
           = (map_of (maps s1 ! length (maps s)))(k \<mapsto> v)"
    and "nodes (query_set s1 child k v) = nodes s1"
  using assms by (auto simp: query_set_def Let_def unchanged_def map_of_map_set)

lemma unchanged_node:
  assumes "unchanged s s'" and "n < length (nodes s)"
  shows "nodes s' ! n = nodes s ! n"
proof -
  from assms(1) have "take (length (nodes s)) (nodes s') = nodes s"
    by (simp add: unchanged_def)
  then have "nodes s ! n = take (length (nodes s)) (nodes s') ! n" by simp
  also from assms(2) have "\<dots> = nodes s' ! n" by simp
  finally show ?thesis by simp
qed

lemma unchanged_map:
  assumes "unchanged s s'" and "r < length (maps s)"
  shows "maps s' ! r = maps s ! r"
proof -
  from assms(1) have "take (length (maps s)) (maps s') = maps s"
    by (simp add: unchanged_def)
  then have "maps s ! r = take (length (maps s)) (maps s') ! r" by simp
  also from assms(2) have "\<dots> = maps s' ! r" by simp
  finally show ?thesis by simp
qed

lemma clone_then_set:
  assumes lt: "this < length (nodes s)" and ok: "store_ok s"
    and cl: "clone s this seg inh = (child, s1)"
    and s2: "s2 = query_set s1 child k v"
  shows "unchanged s s2"
    and "nodes s2 ! this = nodes s ! this"
    and "maps s2 ! query (nodes s ! this) = maps s ! query (nodes s ! this)"
    and "fst (request_of s2 child) = combine [JStr (url (nodes s ! this)), JStr seg]"
    and "map_of (snd (request_of s2 child)) =
           (map_of (if inh then maps s ! query (nodes s ! this) else []))(k \<mapsto> v)"
proof -
  note c = clone_unchanged [OF cl]
  note q = query_set_fresh_unchanged [OF c(1) c(3) c(4), of k v]
  from ok lt have r: "query (nodes s ! this) < length (maps s)"
    by (simp add: store_ok_def list_all_length)
  show u: "unchanged s s2"
    unfolding s2 by (rule q(1))
  from unchanged_node [OF u lt] show "nodes s2 ! this = nodes s ! this" .
  from unchanged_map [OF u r]
  show "maps s2 ! query (nodes s ! this) = maps s ! query (nodes s ! this)" .
  have n: "nodes s2 ! child = nodes s1 ! child"
    unfolding s2 by (simp add: q(3))
  from n c(6) show "fst (request_of s2 child) = combine [JStr (url (nodes s ! this)), JStr seg]"
    by (simp add: request_of_def)
  from n c(3) have "snd (request_of s2 child) = maps s2 ! length (maps s)"
    by (simp add: request_of_def)
  with q(2) c(5) show "map_of (snd (request_of s2 child)) =
           (map_of (if inh then maps s ! query (nodes s ! this) else []))(k \<mapsto> v)"
    unfolding s2 by simp
qed

text \<open>
  Claim C6. A clone has a query map of its own, filled with the parent's entries: after
  \<^verbatim>\<open>query.set(k, v)\<close> on a clone, every node and every map that was in the store is as
  it was, the parent among them with its URL and its query, while the clone's request
  carries the parent's parameters and the new one. \<^verbatim>\<open>removeByLoginName\<close> sets
  \<^verbatim>\<open>@v\<close> on such a clone: its request has the parameter, and the node it was called
  on is unchanged.
\<close>

theorem clone_query_is_separate:
  assumes "this < length (nodes s)" and "store_ok s"
  shows "(clone s this seg inh = (child, s1) \<longrightarrow>
            unchanged s (query_set s1 child k v)
            \<and> nodes (query_set s1 child k v) ! this = nodes s ! this
            \<and> maps (query_set s1 child k v) ! query (nodes s ! this)
                = maps s ! query (nodes s ! this)
            \<and> map_of (snd (request_of (query_set s1 child k v) child)) =
                (map_of (if inh then maps s ! query (nodes s ! this) else []))(k \<mapsto> v))
         \<and> (removeByLoginName s this loginName = (calls, s') \<longrightarrow>
            unchanged s s'
            \<and> nodes s' ! this = nodes s ! this
            \<and> maps s' ! query (nodes s ! this) = maps s ! query (nodes s ! this)
            \<and> (\<exists>entries.
                 calls = [SpPost (combine [JStr (url (nodes s ! this)),
                                           JStr ''removeByLoginName(@v)''], entries)]
                 \<and> map_of entries =
                     (map_of (maps s ! query (nodes s ! this)))
                       (''@v'' \<mapsto> quote @ encodeURIComponent loginName @ quote)))"
proof (intro conjI impI)
  assume cl: "clone s this seg inh = (child, s1)"
  note r = clone_then_set [OF assms cl refl, of k v]
  from r(1) show "unchanged s (query_set s1 child k v)" .
  from r(2) show "nodes (query_set s1 child k v) ! this = nodes s ! this" .
  from r(3) show "maps (query_set s1 child k v) ! query (nodes s ! this)
                = maps s ! query (nodes s ! this)" .
  from r(5) show "map_of (snd (request_of (query_set s1 child k v) child)) =
                (map_of (if inh then maps s ! query (nodes s ! this) else []))(k \<mapsto> v)" .
next
  assume rm: "removeByLoginName s this loginName = (calls, s')"
  obtain child s1 where cl: "clone s this ''removeByLoginName(@v)'' True = (child, s1)"
    by (cases "clone s this ''removeByLoginName(@v)'' True") blast
  define v where "v = quote @ encodeURIComponent loginName @ quote"
  from rm cl have s': "s' = query_set s1 child ''@v'' v"
    and calls: "calls = [SpPost (request_of s' child)]"
    by (auto simp: removeByLoginName_def Let_def v_def)
  note r = clone_then_set [OF assms cl s']
  from r(1) show "unchanged s s'" .
  from r(2) show "nodes s' ! this = nodes s ! this" .
  from r(3) show "maps s' ! query (nodes s ! this) = maps s ! query (nodes s ! this)" .
  have "calls = [SpPost (combine [JStr (url (nodes s ! this)), JStr ''removeByLoginName(@v)''],
                         snd (request_of s' child))]"
    using calls r(4) by (cases "request_of s' child") simp
  moreover have "map_of (snd (request_of s' child)) =
      (map_of (maps s ! query (nodes s ! this)))(''@v'' \<mapsto> quote @ encodeURIComponent loginName @ quote)"
    using r(5) by (simp add: v_def)
  ultimately show "\<exists>entries.
      calls = [SpPost (combine [JStr (url (nodes s ! this)), JStr ''removeByLoginName(@v)''], entries)]
      \<and> map_of entries =
          (map_of (maps s ! query (nodes s ! this)))
            (''@v'' \<mapsto> quote @ encodeURIComponent loginName @ quote)"
    by blast
qed

text \<open>
  The theorem at the site users of a web, queried with \<^verbatim>\<open>$top=5\<close>, and a login name
  with a space.
\<close>

theorem clone_query_is_separate_witness:
  "(0::nat) < length (nodes \<lparr>nodes = [\<lparr>url = ''https://c.example/_api/web/siteusers'',
                    parentUrl = ''https://c.example/_api/web'', query = 0\<rparr>],
          maps = [[(''$top'', ''5'')]]\<rparr>)
   \<and> store_ok \<lparr>nodes = [\<lparr>url = ''https://c.example/_api/web/siteusers'',
                    parentUrl = ''https://c.example/_api/web'', query = 0\<rparr>],
          maps = [[(''$top'', ''5'')]]\<rparr>
   \<and> removeByLoginName
        \<lparr>nodes = [\<lparr>url = ''https://c.example/_api/web/siteusers'',
                    parentUrl = ''https://c.example/_api/web'', query = 0\<rparr>],
          maps = [[(''$top'', ''5'')]]\<rparr> 0 ''a b''
       = ([SpPost (''https://c.example/_api/web/siteusers/removeByLoginName(@v)'',
                   [(''$top'', ''5''), (''@v'', quote @ ''a%20b'' @ quote)])],
          \<lparr>nodes = [\<lparr>url = ''https://c.example/_api/web/siteusers'',
                      parentUrl = ''https://c.example/_api/web'', query = 0\<rparr>,
                    \<lparr>url = ''https://c.example/_api/web/siteusers/removeByLoginName(@v)'',
                      parentUrl = ''https://c.example/_api/web/siteusers'', query = 1\<rparr>],
            maps = [[(''$top'', ''5'')], [(''$top'', ''5''), (''@v'', quote @ ''a%20b'' @ quote)]]\<rparr>)"
  using clone_query_is_separate
    [of 0 "\<lparr>nodes = [\<lparr>url = ''https://c.example/_api/web/siteusers'',
                    parentUrl = ''https://c.example/_api/web'', query = 0\<rparr>],
          maps = [[(''$top'', ''5'')]]\<rparr>"]
  by (simp add: store_ok_def removeByLoginName_def clone_def query_set_def request_of_def Let_def
      combine_def trim_slash_def encodeURIComponent_def uri_unreserved_def percent_encode_def
      hex_digit_def quote_def)

section \<open>The batch coordinator: proofs\<close>

subsection \<open>Registration\<close>

lemma upt_plus_Suc: "[i..<i + Suc n] = i # [Suc i..<Suc i + n]"
  by (simp add: upt_conv_Cons)

lemma register_open:
  assumes "state b = Open"
  shows "\<exists>b'. register r p b = Inr b' \<and> state b' = Open
           \<and> map seq (requests b') = map seq (requests b) @ [length (requests b)]
           \<and> map sub (requests b') = map sub (requests b) @ [r]
           \<and> batch_id b' = batch_id b"
  using assms by (simp add: register_def)

lemma register_all_open:
  "state b = Open \<Longrightarrow>
     \<exists>b'. register_all rs b = Inr b' \<and> state b' = Open
       \<and> map seq (requests b')
           = map seq (requests b) @ [length (requests b)..<length (requests b) + length rs]
       \<and> map sub (requests b') = map sub (requests b) @ map fst rs"
proof (induction rs arbitrary: b)
  case Nil
  then show ?case by simp
next
  case (Cons rp rs)
  obtain r p where rp: "rp = (r, p)" by (cases rp)
  from register_open [OF Cons.prems, of r p] obtain b1 where
    b1: "register r p b = Inr b1" "state b1 = Open"
      "map seq (requests b1) = map seq (requests b) @ [length (requests b)]"
      "map sub (requests b1) = map sub (requests b) @ [r]"
    by blast
  from b1(3) have len: "length (requests b1) = Suc (length (requests b))"
    by (metis length_append_singleton length_map)
  from Cons.IH [OF b1(2)] obtain b' where
    b': "register_all rs b1 = Inr b'" "state b' = Open"
      "map seq (requests b')
         = map seq (requests b1) @ [length (requests b1)..<length (requests b1) + length rs]"
      "map sub (requests b') = map sub (requests b1) @ map fst rs"
    by blast
  have all: "register_all (rp # rs) b = Inr b'"
    using b1(1) b'(1) by (simp add: rp)
  have "[length (requests b)..<length (requests b) + length (rp # rs)]
      = length (requests b) # [length (requests b1)..<length (requests b1) + length rs]"
    unfolding len by (simp only: length_Cons upt_plus_Suc)
  with b'(3) b1(3) have seqs: "map seq (requests b')
      = map seq (requests b) @ [length (requests b)..<length (requests b) + length (rp # rs)]"
    by simp
  have subs: "map sub (requests b') = map sub (requests b) @ map fst (rp # rs)"
    using b'(4) b1(4) by (simp add: rp)
  from all b'(2) seqs subs show ?case by blast
qed

subsection \<open>Demultiplexing follows the sequence ids\<close>

lemma length_outcomes: "length (outcomes ps fs) = length ps"
  by (induction ps fs rule: outcomes.induct) simp_all

lemma demultiplex_settles:
  "map seq ps = [i..<i + length ps] \<Longrightarrow> demultiplex ps fs = settle_events i (outcomes ps fs)"
proof (induction ps fs arbitrary: i rule: demultiplex.induct)
  case (1 fragments)
  show ?case by simp
next
  case (2 p ps)
  from "2.prems" have "seq p # map seq ps = i # [Suc i..<Suc i + length ps]"
    by (simp only: list.map length_Cons upt_plus_Suc)
  then have hd: "seq p = i" and tl: "map seq ps = [Suc i..<Suc i + length ps]"
    by simp_all
  from "2.IH" [OF tl] hd show ?case by simp
next
  case (3 p ps f fs)
  from "3.prems" have "seq p # map seq ps = i # [Suc i..<Suc i + length ps]"
    by (simp only: list.map length_Cons upt_plus_Suc)
  then have hd: "seq p = i" and tl: "map seq ps = [Suc i..<Suc i + length ps]"
    by simp_all
  from "3.IH" [OF tl] hd show ?case by simp
qed

lemma pushed_append: "pushed n (es @ fs) = pushed n es @ pushed n fs"
  by (induction n es rule: pushed.induct) simp_all

lemma pushed_settle_events: "pushed n (settle_events i vs) = [Suc i..<Suc i + length vs]"
proof (induction vs arbitrary: i)
  case Nil
  show ?case by simp
next
  case (Cons v vs)
  have "pushed n (settle_events i (v # vs)) = Suc i # pushed n (settle_events (Suc i) vs)"
    by simp
  also have "\<dots> = Suc i # [Suc (Suc i)..<Suc (Suc i) + length vs]"
    by (simp only: Cons.IH)
  also have "\<dots> = [Suc i..<Suc i + length (v # vs)]"
    by (simp only: length_Cons upt_plus_Suc)
  finally show ?case .
qed

lemma set_settle_events:
  "set (settle_events i vs) =
     (\<Union>k \<in> {..<length vs}. {Settled (i + k) (vs ! k), CallbackScheduled (i + k), CallbackRan (i + k)})"
proof (induction vs arbitrary: i)
  case Nil
  show ?case by simp
next
  case (Cons v vs)
  have split: "{..<length (v # vs)} = insert 0 (Suc ` {..<length vs})"
    by (auto simp: lessThan_Suc_eq_insert_0)
  show ?case
    unfolding split by (simp add: Cons.IH)
qed

lemma settle_events_append:
  "settle_events i (us @ vs) = settle_events i us @ settle_events (i + length us) vs"
  by (induction us arbitrary: i) simp_all

lemma happens_before_split:
  assumes "a \<in> set xs" and "b \<notin> set xs"
  shows "happens_before a b (xs @ b # ys)"
proof -
  from assms(2) have "takeWhile (\<lambda>e. e \<noteq> b) (xs @ b # ys) = xs"
    by (auto simp: takeWhile_tail)
  with assms(1) show ?thesis by (simp add: happens_before_def)
qed

lemma callbacks_before_completion:
  assumes "k < length vs"
  shows "happens_before (CallbackRan k) BatchResolved
           (Dispatched subs # settle_events 0 vs @ [BatchResolved])"
proof -
  from assms have "CallbackRan k \<in> set (Dispatched subs # settle_events 0 vs)"
    by (auto simp: set_settle_events)
  moreover have "BatchResolved \<notin> set (Dispatched subs # settle_events 0 vs)"
    by (auto simp: set_settle_events)
  ultimately have "happens_before (CallbackRan k) BatchResolved
      ((Dispatched subs # settle_events 0 vs) @ BatchResolved # [])"
    by (rule happens_before_split)
  then show ?thesis by simp
qed

lemma settled_after_previous_callback:
  assumes "0 < k" and "k < length vs"
  shows "happens_before (CallbackScheduled (k - 1)) (Settled k (vs ! k))
           (Dispatched subs # settle_events 0 vs @ [BatchResolved])"
proof -
  let ?front = "Dispatched subs # settle_events 0 (take k vs)"
  let ?rest = "[CallbackScheduled k, CallbackRan k] @ settle_events (Suc k) (drop (Suc k) vs)
                 @ [BatchResolved]"
  from assms(2) have vs: "vs = take k vs @ (vs ! k) # drop (Suc k) vs"
    by (simp add: id_take_nth_drop)
  from assms(2) have lk: "length (take k vs) = k" by simp
  have "settle_events 0 vs = settle_events 0 (take k vs @ (vs ! k) # drop (Suc k) vs)"
    using vs by simp
  also have "\<dots> = settle_events 0 (take k vs)
      @ settle_events k ((vs ! k) # drop (Suc k) vs)"
    by (simp only: settle_events_append lk add_0)
  finally have shape: "Dispatched subs # settle_events 0 vs @ [BatchResolved]
      = ?front @ Settled k (vs ! k) # ?rest"
    by simp
  from assms have "CallbackScheduled (k - 1) \<in> set ?front"
    by (auto simp: set_settle_events lk)
  moreover have "Settled k (vs ! k) \<notin> set ?front"
    by (auto simp: set_settle_events lk)
  ultimately have "happens_before (CallbackScheduled (k - 1)) (Settled k (vs ! k))
      (?front @ Settled k (vs ! k) # ?rest)"
    by (rule happens_before_split)
  with shape show ?thesis by simp
qed

lemma execute_open:
  assumes "state b = Open" and "transport (map sub (requests b)) = Inr fragments"
  shows "execute transport b =
           Inr (b\<lparr>state := Completed\<rparr>,
                Dispatched (map sub (requests b)) # demultiplex (requests b) fragments
                  @ [BatchResolved])"
  using assms by (simp add: execute_def begin_execute_def finish_execute_def)

text \<open>
  Claim C1. Any number of calls registered on a new batch get the sequence ids 0, 1, 2, ...
  of their registration. When the batch executes and the transport answers, the requests
  are dispatched in one call in that order and the promises are settled in that order:
  the promise of registration \<open>i\<close> is settled only after the callback of registration
  \<open>i - 1\<close> has been scheduled, every callback has run before the completion promise of
  the batch resolves, and the array the ordering tests fill is 1, 2, ..., n + 1.
\<close>

theorem batch_settles_in_registration_order:
  "\<exists>b. register_all rs (createBatch ident) = Inr b
       \<and> map seq (requests b) = [0..<length rs]
       \<and> (transport (map fst rs) = Inr fragments \<longrightarrow>
            (\<exists>b' events. execute transport b = Inr (b', events)
               \<and> state b' = Completed
               \<and> hd events = Dispatched (map fst rs)
               \<and> pushed (length rs) events = [1..<length rs + 2]
               \<and> (\<forall>i. 0 < i \<and> i < length rs \<longrightarrow>
                    (\<exists>v. Settled i v \<in> set events
                       \<and> happens_before (CallbackScheduled (i - 1)) (Settled i v) events))
               \<and> (\<forall>i < length rs. happens_before (CallbackRan i) BatchResolved events)))"
proof -
  have "state (createBatch ident) = Open" "requests (createBatch ident) = []"
    by (simp_all add: createBatch_def)
  with register_all_open [of "createBatch ident" rs] obtain b where
    b: "register_all rs (createBatch ident) = Inr b" and
    st: "state b = Open" and
    seqs: "map seq (requests b) = [0..<length rs]" and
    subs: "map sub (requests b) = map fst rs"
    by auto
  from seqs have n: "length (requests b) = length rs"
    by (metis length_map length_upt minus_nat.diff_0)
  have after: "transport (map fst rs) = Inr fragments \<longrightarrow>
      (\<exists>b' events. execute transport b = Inr (b', events)
         \<and> state b' = Completed
         \<and> hd events = Dispatched (map fst rs)
         \<and> pushed (length rs) events = [1..<length rs + 2]
         \<and> (\<forall>i. 0 < i \<and> i < length rs \<longrightarrow>
              (\<exists>v. Settled i v \<in> set events
                 \<and> happens_before (CallbackScheduled (i - 1)) (Settled i v) events))
         \<and> (\<forall>i < length rs. happens_before (CallbackRan i) BatchResolved events))"
  proof
    assume tr: "transport (map fst rs) = Inr fragments"
    define vs where "vs = outcomes (requests b) fragments"
    define events where
      "events = Dispatched (map sub (requests b)) # settle_events 0 vs @ [BatchResolved]"
    have lvs: "length vs = length rs"
      by (simp add: vs_def length_outcomes n)
    from seqs n have "map seq (requests b) = [0..<0 + length (requests b)]" by simp
    then have "demultiplex (requests b) fragments = settle_events 0 vs"
      unfolding vs_def by (rule demultiplex_settles)
    with execute_open [OF st, of transport fragments] tr subs
    have ex: "execute transport b = Inr (b\<lparr>state := Completed\<rparr>, events)"
      by (simp add: events_def)
    have order: "pushed (length rs) events = [1..<length rs + 2]"
      by (simp add: events_def pushed_append pushed_settle_events lvs)
    have settle: "\<forall>i. 0 < i \<and> i < length rs \<longrightarrow>
        (\<exists>v. Settled i v \<in> set events
           \<and> happens_before (CallbackScheduled (i - 1)) (Settled i v) events)"
    proof (intro allI impI)
      fix i assume i: "0 < i \<and> i < length rs"
      then have "Settled i (vs ! i) \<in> set events"
        by (auto simp: events_def set_settle_events lvs)
      moreover from i have "0 < i" and "i < length vs"
        by (simp_all add: lvs)
      then have "happens_before (CallbackScheduled (i - 1)) (Settled i (vs ! i)) events"
        unfolding events_def by (rule settled_after_previous_callback)
      ultimately show "\<exists>v. Settled i v \<in> set events
           \<and> happens_before (CallbackScheduled (i - 1)) (Settled i v) events"
        by blast
    qed
    have compl: "\<forall>i < length rs. happens_before (CallbackRan i) BatchResolved events"
      unfolding events_def by (simp add: callbacks_before_completion lvs)
    have disp: "hd events = Dispatched (map fst rs)"
      by (simp add: events_def subs)
    from ex disp order settle compl show "\<exists>b' events. execute transport b = Inr (b', events)
         \<and> state b' = Completed
         \<and> hd events = Dispatched (map fst rs)
         \<and> pushed (length rs) events = [1..<length rs + 2]
         \<and> (\<forall>i. 0 < i \<and> i < length rs \<longrightarrow>
              (\<exists>v. Settled i v \<in> set events
                 \<and> happens_before (CallbackScheduled (i - 1)) (Settled i v) events))
         \<and> (\<forall>i < length rs. happens_before (CallbackRan i) BatchResolved events)"
      by (intro exI [of _ "b\<lparr>state := Completed\<rparr>"] exI [of _ events]) simp
  qed
  from b seqs after show ?thesis by blast
qed

text \<open>
  The theorem at the three ordering tests: one call, four calls and three calls, with a
  transport that answers one fragment for each sub-request.
\<close>

theorem batch_settles_in_registration_order_witness:
  "ordering_test [(get_request ''web'', Inr)] (\<lambda>subs. Inr (map rel_url subs)) = Inr [1, 2]
   \<and> ordering_test
        [(get_request ''web'', Inr), (get_request ''web/lists'', Inr),
         (get_request ''web/lists?$top=2'', Inr), (get_request ''web/lists?$select=Title'', Inr)]
        (\<lambda>subs. Inr (map rel_url subs)) = Inr [1, 2, 3, 4, 5]
   \<and> ordering_test
        [(get_request ''web'', Inr), (get_request ''web/lists'', Inr),
         (get_request ''web/lists?$top=2'', Inr)]
        (\<lambda>subs. Inr (map rel_url subs)) = Inr [1, 2, 3, 4]"
proof -
  let ?transport = "\<lambda>subs. Inr (map rel_url subs) :: batch_error + string list"
  let ?one = "[(get_request ''web'', Inr)]
                :: (sub_request \<times> (string \<Rightarrow> batch_error + string)) list"
  let ?four = "[(get_request ''web'', Inr), (get_request ''web/lists'', Inr),
         (get_request ''web/lists?$top=2'', Inr), (get_request ''web/lists?$select=Title'', Inr)]
                :: (sub_request \<times> (string \<Rightarrow> batch_error + string)) list"
  let ?three = "[(get_request ''web'', Inr), (get_request ''web/lists'', Inr),
         (get_request ''web/lists?$top=2'', Inr)]
                :: (sub_request \<times> (string \<Rightarrow> batch_error + string)) list"
  have gen: "ordering_test rs ?transport = Inr [1..<length rs + 2]" for rs
  proof -
    have tr: "?transport (map fst rs) = Inr (map (rel_url \<circ> fst) rs)"
      by simp
    from batch_settles_in_registration_order
      [of rs "''batch''" ?transport "map (rel_url \<circ> fst) rs"]
    obtain b where b: "register_all rs (createBatch ''batch'') = Inr b"
      and ex: "?transport (map fst rs) = Inr (map (rel_url \<circ> fst) rs) \<longrightarrow>
        (\<exists>b' events. execute ?transport b = Inr (b', events)
           \<and> state b' = Completed
           \<and> hd events = Dispatched (map fst rs)
           \<and> pushed (length rs) events = [1..<length rs + 2]
           \<and> (\<forall>i. 0 < i \<and> i < length rs \<longrightarrow>
                (\<exists>v. Settled i v \<in> set events
                   \<and> happens_before (CallbackScheduled (i - 1)) (Settled i v) events))
           \<and> (\<forall>i < length rs. happens_before (CallbackRan i) BatchResolved events))"
      by blast
    from ex tr obtain b' events where
      "execute ?transport b = Inr (b', events)"
      "pushed (length rs) events = [1..<length rs + 2]"
      by blast
    with b show ?thesis
      by (simp add: ordering_test_def)
  qed
  note one = gen [of ?one] and four = gen [of ?four] and three = gen [of ?three]
  have "[1..<length ?one + 2] = [1, 2]" "[1..<length ?four + 2] = [1, 2, 3, 4, 5]"
    "[1..<length ?three + 2] = [1, 2, 3, 4]"
    by (simp_all add: upt_conv_Cons)
  with one four three show ?thesis by simp
qed

subsection \<open>A batch is consumed once\<close>

lemma spent_register:
  assumes "state b \<noteq> Open"
  shows "register r p b = Inl BatchStateError"
  using assms by (simp add: register_def)

lemma spent_execute:
  assumes "state b \<noteq> Open"
  shows "execute transport b = Inl BatchStateError"
  using assms by (simp add: execute_def begin_execute_def)

lemma spent_call:
  assumes "state b \<noteq> Open"
  shows "call c b = Inl BatchStateError"
  using assms by (cases c) (simp_all add: spent_register spent_execute)

lemma spent_run:
  assumes "state b \<noteq> Open"
  shows "run cs b = (b, [])"
  using assms by (induction cs) (simp_all add: spent_call)

lemma begin_execute_spends:
  assumes "begin_execute b = Inr (b1, sent)"
  shows "state b1 = Executing"
  using assms by (auto simp: begin_execute_def split: if_splits)

lemma execute_spends:
  assumes "execute transport b = Inr (b', events)"
  shows "state b' = Completed \<or> state b' = Failed"
  using assms
  by (auto simp: execute_def begin_execute_def finish_execute_def split: if_splits sum.splits)

text \<open>
  Claim C7. Once \<^verbatim>\<open>execute()\<close> has been invoked on a batch, the batch is no longer
  open: while the call is in flight and after it has completed or failed, a registration
  and a second \<^verbatim>\<open>execute()\<close> throw \<open>BatchStateError\<close>. Whatever calls follow, each
  throws, nothing is dispatched and the batch stays as it is.
\<close>

theorem spent_batch_fails_loudly:
  "(execute transport b = Inr (b', events) \<longrightarrow>
      state b' \<noteq> Open
      \<and> register r p b' = Inl BatchStateError
      \<and> execute transport' b' = Inl BatchStateError
      \<and> (\<forall>c \<in> set calls. call c b' = Inl BatchStateError)
      \<and> run calls b' = (b', []))
   \<and> (begin_execute b = Inr (b1, sent) \<longrightarrow>
      state b1 \<noteq> Open
      \<and> register r p b1 = Inl BatchStateError
      \<and> execute transport' b1 = Inl BatchStateError)"
proof (intro conjI impI)
  assume "execute transport b = Inr (b', events)"
  from execute_spends [OF this] have spent: "state b' \<noteq> Open" by auto
  then show "state b' \<noteq> Open" .
  from spent show "register r p b' = Inl BatchStateError" by (rule spent_register)
  from spent show "execute transport' b' = Inl BatchStateError" by (rule spent_execute)
  from spent show "\<forall>c \<in> set calls. call c b' = Inl BatchStateError"
    by (simp add: spent_call)
  from spent show "run calls b' = (b', [])" by (rule spent_run)
next
  assume "begin_execute b = Inr (b1, sent)"
  from begin_execute_spends [OF this] have spent: "state b1 \<noteq> Open" by simp
  then show "state b1 \<noteq> Open" .
  from spent show "register r p b1 = Inl BatchStateError" by (rule spent_register)
  from spent show "execute transport' b1 = Inl BatchStateError" by (rule spent_execute)
qed

text \<open>
  The theorem at a batch with one registered call: it executes, and then a registration and
  a second execution both throw.
\<close>

theorem spent_batch_fails_loudly_witness:
  "execute (\<lambda>subs. Inr (map rel_url subs))
     \<lparr>state = Open, requests = [\<lparr>seq = 0, sub = get_request ''web'', parser = Inr\<rparr>],
      batch_id = ''batch''\<rparr>
     = Inr (\<lparr>state = Completed, requests = [\<lparr>seq = 0, sub = get_request ''web'', parser = Inr\<rparr>],
             batch_id = ''batch''\<rparr>,
            [Dispatched [get_request ''web''], Settled 0 (Inr ''web''), CallbackScheduled 0,
             CallbackRan 0, BatchResolved])
   \<and> register (get_request ''web/lists'') Inr
        \<lparr>state = Completed, requests = [\<lparr>seq = 0, sub = get_request ''web'', parser = Inr\<rparr>],
         batch_id = ''batch''\<rparr> = Inl BatchStateError
   \<and> execute (\<lambda>subs. Inr (map rel_url subs))
        \<lparr>state = Completed, requests = [\<lparr>seq = 0, sub = get_request ''web'', parser = Inr\<rparr>],
         batch_id = ''batch''\<rparr> = Inl BatchStateError"
proof -
  let ?transport = "\<lambda>subs. Inr (map rel_url subs) :: batch_error + string list"
  let ?reqs = "[\<lparr>seq = 0, sub = get_request ''web'', parser = Inr\<rparr>] :: pending_request list"
  have first: "execute ?transport \<lparr>state = Open, requests = ?reqs, batch_id = ''batch''\<rparr>
     = Inr (\<lparr>state = Completed, requests = ?reqs, batch_id = ''batch''\<rparr>,
            [Dispatched [get_request ''web''], Settled 0 (Inr ''web''), CallbackScheduled 0,
             CallbackRan 0, BatchResolved])"
    by (simp add: execute_def begin_execute_def finish_execute_def get_request_def)
  from spent_batch_fails_loudly
    [of ?transport "\<lparr>state = Open, requests = ?reqs, batch_id = ''batch''\<rparr>"
      "\<lparr>state = Completed, requests = ?reqs, batch_id = ''batch''\<rparr>" _
      "get_request ''web/lists''" Inr ?transport] first
  show ?thesis by simp
qed

end
